theory Spec2Isabelle
  imports Main
begin

section \<open>The string primitives that strfind calls\<close>

text \<open>
  \<^verbatim>\<open>strfind\<close> (src/pyxllib/debug/strlib.py, lines 24-133) is written on top of
  Python's \<^verbatim>\<open>len\<close>, \<^verbatim>\<open>str.find(sub, start)\<close> and \<^verbatim>\<open>str.rfind(sub, start, end)\<close>.
  A Python string is a sequence of code points; it is modelled as a list over an
  arbitrary character type, so that every result holds for \<open>string\<close> as well.
  Python integers are unbounded: positions, cursors and counts are \<open>int\<close>.

  Both primitives first clip their bounds the way a slice does: a negative bound counts
  from the end of the string and is cut at 0, an end beyond the string is cut at its
  length. They then answer the lowest (\<^verbatim>\<open>find\<close>) or highest (\<^verbatim>\<open>rfind\<close>) index at which
  \<^verbatim>\<open>sub\<close> lies wholly inside the clipped slice, and -1 when there is none.
\<close>

definition adjust_start :: "int \<Rightarrow> int \<Rightarrow> int" where
  "adjust_start start n = (if start < 0 then max 0 (start + n) else start)"

definition adjust_end :: "int \<Rightarrow> int \<Rightarrow> int" where
  "adjust_end e n = (if e > n then n else if e < 0 then max 0 (e + n) else e)"

definition match_at :: "'a list \<Rightarrow> 'a list \<Rightarrow> nat \<Rightarrow> bool" where
  "match_at s sub i = (take (length sub) (drop i s) = sub)"

definition py_find :: "'a list \<Rightarrow> 'a list \<Rightarrow> int \<Rightarrow> int" where
  "py_find s sub start =
     (let n = int (length s); m = int (length sub); st = adjust_start start n in
      if n - st < m then - 1
      else (case List.find (match_at s sub) [nat st ..< nat (n - m) + 1] of
              None \<Rightarrow> - 1
            | Some i \<Rightarrow> int i))"

definition py_rfind :: "'a list \<Rightarrow> 'a list \<Rightarrow> int \<Rightarrow> int \<Rightarrow> int" where
  "py_rfind s sub start e =
     (let n = int (length s); m = int (length sub);
          en = adjust_end e n; st = adjust_start start n in
      if en - st < m then - 1
      else (case List.find (match_at s sub) (rev [nat st ..< nat (en - m) + 1]) of
              None \<Rightarrow> - 1
            | Some i \<Rightarrow> int i))"

section \<open>strfind\<close>

text \<open>
  The argument \<^verbatim>\<open>objstr\<close> is a string, or a list or tuple that \<^verbatim>\<open>strfind\<close> maps itself
  over; the recursive call decides again for each element, so the collection may nest.
\<close>

datatype 'a objstr = Str "'a list" | Seq "'a objstr list"

text \<open>The two local reducers: the least, or the greatest, non-negative element, else -1.\<close>

definition nonnegative_min_value :: "int list \<Rightarrow> int" where
  "nonnegative_min_value arr =
     (case filter (\<lambda>x. x \<ge> 0) arr of [] \<Rightarrow> - 1 | x # xs \<Rightarrow> fold min xs x)"

definition nonnegative_max_value :: "int list \<Rightarrow> int" where
  "nonnegative_max_value arr =
     (case filter (\<lambda>x. x \<ge> 0) arr of [] \<Rightarrow> - 1 | x # xs \<Rightarrow> fold max xs x)"

text \<open>
  Each of the four loops of \<^verbatim>\<open>strfind\<close> has the same shape,
  \<^verbatim>\<open>for _ in range(k): p = step(p); if p == -1: return -1\<close>, followed by \<^verbatim>\<open>return p\<close>.
\<close>

fun for_range :: "nat \<Rightarrow> (int \<Rightarrow> int) \<Rightarrow> int \<Rightarrow> int" where
  "for_range 0 step p = p"
| "for_range (Suc k) step p =
     (let q = step p in if q = - 1 then - 1 else for_range k step q)"

lemma for_range_cong [fundef_cong]:
  "k = k' \<Longrightarrow> p = p' \<Longrightarrow> (\<And>q. step q = step' q) \<Longrightarrow>
   for_range k step p = for_range k' step' p'"
proof -
  assume "\<And>q. step q = step' q"
  then have "step = step'" by (simp add: fun_eq_iff)
  moreover assume "k = k'" "p = p'"
  ultimately show ?thesis by simp
qed

fun strfind :: "'a list \<Rightarrow> 'a objstr \<Rightarrow> int option \<Rightarrow> int \<Rightarrow> bool \<Rightarrow> int" where
  "strfind fullstr (Str objstr) start tms overlap =
     (let start = (case start of
                     None \<Rightarrow> if tms < 0 then int (length fullstr) - 1 else 0
                   | Some s \<Rightarrow> s);
          offset = (if overlap then 1 else int (length objstr))
      in if tms \<ge> 0
         then for_range (nat (tms + 1))
                (\<lambda>p. py_find fullstr objstr (p + offset)) (start - offset)
         else for_range (nat (- tms))
                (\<lambda>p. py_rfind fullstr objstr 0 (p - offset)) (start + offset + 1))"
| "strfind fullstr (Seq objstr) start tms overlap =
     (let start = (case start of
                     None \<Rightarrow> if tms < 0 then int (length fullstr) - 1 else 0
                   | Some s \<Rightarrow> s)
      in if tms \<ge> 0
         then for_range (nat (tms + 1))
                (\<lambda>p. nonnegative_min_value
                        (map (\<lambda>x. strfind fullstr x (Some (p + 1)) 0 overlap) objstr))
                (start - 1)
         else for_range (nat (- tms))
                (\<lambda>p. nonnegative_max_value
                        (map (\<lambda>x. strfind fullstr x (Some (p - 1)) (- 1) overlap) objstr))
                (start + 1))"

section \<open>What a match position is\<close>

text \<open>
  The needle \<open>sub\<close> occurs at index \<open>i\<close> of \<open>s\<close> when it lies there wholly inside \<open>s\<close>.
  This is the notion the properties below measure \<^verbatim>\<open>strfind\<close> against; it does not
  mention the search.
\<close>

definition occurs_at :: "'a list \<Rightarrow> 'a list \<Rightarrow> nat \<Rightarrow> bool" where
  "occurs_at s sub i = (i + length sub \<le> length s \<and> take (length sub) (drop i s) = sub)"

text \<open>
  The first occurrence at or after a cursor \<open>c\<close>, and the \<open>(k+1)\<close>-th occurrence at or
  after \<open>c\<close> when each later occurrence is looked for \<open>adv\<close> characters after the start
  of the one before it: with \<open>adv = length sub\<close> these are the successive
  non-overlapping occurrences.
\<close>

definition first_from :: "'a list \<Rightarrow> 'a list \<Rightarrow> nat \<Rightarrow> nat \<Rightarrow> bool" where
  "first_from s sub c i =
     (c \<le> i \<and> occurs_at s sub i \<and> (\<forall>j\<in>{c..<i}. \<not> occurs_at s sub j))"

fun kth_from :: "'a list \<Rightarrow> 'a list \<Rightarrow> nat \<Rightarrow> nat \<Rightarrow> nat \<Rightarrow> nat \<Rightarrow> bool" where
  "kth_from s sub adv c 0 i = first_from s sub c i"
| "kth_from s sub adv c (Suc k) i =
     (\<exists>q\<in>{..i}. kth_from s sub adv c k q \<and> first_from s sub (q + adv) i)"

text \<open>
  The strings of a needle argument, and the needle arguments all of whose strings are
  strictly longer than the haystack.
\<close>

fun strings_of :: "'a objstr \<Rightarrow> 'a list set" where
  "strings_of (Str x) = {x}"
| "strings_of (Seq xs) = (\<Union>x\<in>set xs. strings_of x)"

fun all_longer :: "'a list \<Rightarrow> 'a objstr \<Rightarrow> bool" where
  "all_longer h (Str x) = (length h < length x)"
| "all_longer h (Seq xs) = list_all (all_longer h) xs"

section \<open>The primitives return the nearest occurrence\<close>

lemma find_upt_Some:
  "List.find P [a..<b] = Some i \<longleftrightarrow> a \<le> i \<and> i < b \<and> P i \<and> (\<forall>j. a \<le> j \<and> j < i \<longrightarrow> \<not> P j)"
proof
  assume "List.find P [a..<b] = Some i"
  then obtain k where k: "k < b - a" "P (a + k)" "i = a + k" "\<forall>j<k. \<not> P ([a..<b] ! j)"
    by (auto simp: find_Some_iff)
  have "\<not> P j" if "a \<le> j" "j < i" for j
  proof -
    have "j - a < k" using that k by simp
    with k(4) have "\<not> P ([a..<b] ! (j - a))" by blast
    moreover have "[a..<b] ! (j - a) = j" using that k by simp
    ultimately show ?thesis by simp
  qed
  with k show "a \<le> i \<and> i < b \<and> P i \<and> (\<forall>j. a \<le> j \<and> j < i \<longrightarrow> \<not> P j)" by auto
next
  assume r: "a \<le> i \<and> i < b \<and> P i \<and> (\<forall>j. a \<le> j \<and> j < i \<longrightarrow> \<not> P j)"
  then have "i - a < length [a..<b]" "P ([a..<b] ! (i - a))" "i = [a..<b] ! (i - a)"
    by auto
  moreover have "\<forall>j<i - a. \<not> P ([a..<b] ! j)" using r by auto
  ultimately show "List.find P [a..<b] = Some i"
    unfolding find_Some_iff by blast
qed

lemma find_upt_None:
  "List.find P [a..<b] = None \<longleftrightarrow> (\<forall>j. a \<le> j \<and> j < b \<longrightarrow> \<not> P j)"
  by (auto simp: find_None_iff)

lemma rev_upt_nth: "a \<le> i \<Longrightarrow> i < b \<Longrightarrow> rev [a..<b] ! (b - Suc i) = i"
proof -
  assume h: "a \<le> i" "i < b"
  then have "b - Suc i < length [a..<b]" by simp
  then have "rev [a..<b] ! (b - Suc i) = [a..<b] ! (length [a..<b] - Suc (b - Suc i))"
    by (rule rev_nth)
  also have "length [a..<b] - Suc (b - Suc i) = i - a" using h by simp
  also have "[a..<b] ! (i - a) = i" using h by simp
  finally show ?thesis .
qed

lemma find_rev_upt_Some:
  "List.find P (rev [a..<b]) = Some i \<longleftrightarrow> a \<le> i \<and> i < b \<and> P i \<and> (\<forall>j. i < j \<and> j < b \<longrightarrow> \<not> P j)"
proof
  assume "List.find P (rev [a..<b]) = Some i"
  then obtain k where k: "k < b - a" "P (rev [a..<b] ! k)" "i = rev [a..<b] ! k"
     "\<forall>j<k. \<not> P (rev [a..<b] ! j)"
    by (auto simp: find_Some_iff)
  have "i \<in> set (rev [a..<b])" using k(1,3) by (metis length_rev length_upt nth_mem)
  then have ab: "a \<le> i" "i < b" by auto
  have ik: "k = b - Suc i"
  proof -
    have "rev [a..<b] ! (b - Suc i) = rev [a..<b] ! k" using rev_upt_nth[OF ab] k(3) by simp
    moreover have "distinct (rev [a..<b])" by simp
    moreover have "b - Suc i < length (rev [a..<b])" using ab by simp
    moreover have "k < length (rev [a..<b])" using k(1) by simp
    ultimately show ?thesis using nth_eq_iff_index_eq by metis
  qed
  have "\<not> P j" if "i < j" "j < b" for j
  proof -
    have "b - Suc j < k" using that ab ik by simp
    with k(4) have "\<not> P (rev [a..<b] ! (b - Suc j))" by blast
    moreover have "rev [a..<b] ! (b - Suc j) = j" using that ab by (simp add: rev_upt_nth)
    ultimately show ?thesis by simp
  qed
  with k ab show "a \<le> i \<and> i < b \<and> P i \<and> (\<forall>j. i < j \<and> j < b \<longrightarrow> \<not> P j)" by auto
next
  assume r: "a \<le> i \<and> i < b \<and> P i \<and> (\<forall>j. i < j \<and> j < b \<longrightarrow> \<not> P j)"
  let ?k = "b - Suc i"
  have 1: "?k < length (rev [a..<b])" using r by auto
  have e: "rev [a..<b] ! ?k = i" using r by (simp add: rev_upt_nth)
  have "\<not> P (rev [a..<b] ! j)" if "j < ?k" for j
  proof -
    have "rev [a..<b] ! (b - Suc (b - Suc j)) = b - Suc j"
      using that r by (intro rev_upt_nth) auto
    moreover have "b - Suc (b - Suc j) = j" using that by simp
    ultimately have "rev [a..<b] ! j = b - Suc j" by simp
    moreover have "i < b - Suc j" "b - Suc j < b" using that by auto
    ultimately show ?thesis using r by simp
  qed
  then have 2: "\<forall>j<?k. \<not> P (rev [a..<b] ! j)" by blast
  from 1 e 2 r show "List.find P (rev [a..<b]) = Some i"
    unfolding find_Some_iff by metis
qed

lemma find_rev_upt_None:
  "List.find P (rev [a..<b]) = None \<longleftrightarrow> (\<forall>j. a \<le> j \<and> j < b \<longrightarrow> \<not> P j)"
  by (auto simp: find_None_iff)

lemma adjust_start_nonneg: "0 \<le> n \<Longrightarrow> 0 \<le> adjust_start start n"
  by (simp add: adjust_start_def)

lemma adjust_end_range: "0 \<le> n \<Longrightarrow> 0 \<le> adjust_end e n \<and> adjust_end e n \<le> n"
  by (simp add: adjust_end_def)

lemma py_find_cases:
  fixes s sub :: "'a list" and start :: int
  defines "c \<equiv> nat (adjust_start start (int (length s)))"
  shows "(py_find s sub start = - 1 \<and> (\<forall>j\<ge>c. \<not> occurs_at s sub j)) \<or>
         (\<exists>i. py_find s sub start = int i \<and> c \<le> i \<and> occurs_at s sub i \<and>
              (\<forall>j. c \<le> j \<and> j < i \<longrightarrow> \<not> occurs_at s sub j))"
proof -
  let ?n = "int (length s)" and ?m = "int (length sub)"
  let ?st = "adjust_start start ?n"
  have st: "0 \<le> ?st" "int c = ?st" by (simp_all add: adjust_start_nonneg c_def)
  show ?thesis
  proof (cases "?n - ?st < ?m")
    case True
    then have "py_find s sub start = - 1" by (simp add: py_find_def)
    moreover have "\<not> occurs_at s sub j" if "c \<le> j" for j
      using that True st by (auto simp: occurs_at_def)
    ultimately show ?thesis by blast
  next
    case False
    then have hi: "nat (?n - ?m) + 1 + length sub = length s + 1" "length sub \<le> length s"
      using st by auto
    have pf: "py_find s sub start =
      (case List.find (match_at s sub) [c ..< nat (?n - ?m) + 1] of None \<Rightarrow> - 1 | Some i \<Rightarrow> int i)"
    proof -
      have "py_find s sub start =
        (if ?n - ?st < ?m then - 1
         else (case List.find (match_at s sub) [nat ?st ..< nat (?n - ?m) + 1] of
                 None \<Rightarrow> - 1 | Some i \<Rightarrow> int i))"
        unfolding py_find_def Let_def by (rule refl)
      then show ?thesis using False unfolding c_def by (simp only: if_False)
    qed
    have occ: "occurs_at s sub j \<longleftrightarrow> j < nat (?n - ?m) + 1 \<and> match_at s sub j" for j
      using hi by (auto simp: occurs_at_def match_at_def)
    show ?thesis
    proof (cases "List.find (match_at s sub) [c ..< nat (?n - ?m) + 1]")
      case None
      then have "\<forall>j\<ge>c. \<not> occurs_at s sub j"
        unfolding find_upt_None occ by blast
      with pf None show ?thesis by simp
    next
      case (Some i)
      then have "c \<le> i \<and> occurs_at s sub i \<and> (\<forall>j. c \<le> j \<and> j < i \<longrightarrow> \<not> occurs_at s sub j)"
        unfolding find_upt_Some occ by auto
      with pf Some show ?thesis by simp
    qed
  qed
qed

lemma py_rfind_cases:
  fixes s sub :: "'a list" and e :: int
  defines "b \<equiv> nat (adjust_end e (int (length s)))"
  shows "(py_rfind s sub 0 e = - 1 \<and> (\<forall>j. j + length sub \<le> b \<longrightarrow> \<not> occurs_at s sub j)) \<or>
         (\<exists>i. py_rfind s sub 0 e = int i \<and> i + length sub \<le> b \<and> occurs_at s sub i \<and>
              (\<forall>j. i < j \<and> j + length sub \<le> b \<longrightarrow> \<not> occurs_at s sub j))"
proof -
  let ?n = "int (length s)" and ?m = "int (length sub)"
  let ?en = "adjust_end e ?n"
  have en: "0 \<le> ?en" "?en \<le> ?n" "int b = ?en"
    using adjust_end_range[of ?n e] by (simp_all add: b_def)
  then have bs: "b \<le> length s" by linarith
  have st0: "adjust_start 0 ?n = 0" by (simp add: adjust_start_def)
  show ?thesis
  proof (cases "?en < ?m")
    case True
    then have "py_rfind s sub 0 e = - 1" by (simp add: py_rfind_def st0)
    moreover have "\<not> (j + length sub \<le> b)" for j
      using True en by linarith
    ultimately show ?thesis by blast
  next
    case False
    then have hi: "nat (?en - ?m) + 1 + length sub = b + 1" "length sub \<le> b"
      using en by auto
    have pf: "py_rfind s sub 0 e =
      (case List.find (match_at s sub) (rev [0 ..< nat (?en - ?m) + 1]) of None \<Rightarrow> - 1 | Some i \<Rightarrow> int i)"
    proof -
      have "py_rfind s sub 0 e =
        (if ?en - adjust_start 0 ?n < ?m then - 1
         else (case List.find (match_at s sub) (rev [nat (adjust_start 0 ?n) ..< nat (?en - ?m) + 1]) of
                 None \<Rightarrow> - 1 | Some i \<Rightarrow> int i))"
        unfolding py_rfind_def Let_def by (rule refl)
      then show ?thesis using False unfolding st0 by (simp only: if_False diff_0_right nat_0)
    qed
    have occ: "j + length sub \<le> b \<and> occurs_at s sub j \<longleftrightarrow> j < nat (?en - ?m) + 1 \<and> match_at s sub j" for j
      using hi bs by (auto simp: occurs_at_def match_at_def)
    show ?thesis
    proof (cases "List.find (match_at s sub) (rev [0 ..< nat (?en - ?m) + 1])")
      case None
      then have "\<forall>j. j + length sub \<le> b \<longrightarrow> \<not> occurs_at s sub j"
        unfolding find_rev_upt_None using occ by blast
      with pf None show ?thesis by simp
    next
      case (Some i)
      then have "i < nat (?en - ?m) + 1 \<and> match_at s sub i \<and>
         (\<forall>j. i < j \<and> j < nat (?en - ?m) + 1 \<longrightarrow> \<not> match_at s sub j)"
        unfolding find_rev_upt_Some by simp
      then have "i + length sub \<le> b \<and> occurs_at s sub i \<and>
              (\<forall>j. i < j \<and> j + length sub \<le> b \<longrightarrow> \<not> occurs_at s sub j)"
        using occ by blast
      with pf Some show ?thesis by simp
    qed
  qed
qed

section \<open>The four loops of strfind\<close>

text \<open>
  Both loop counts, \<^verbatim>\<open>times + 1\<close> going forward and \<^verbatim>\<open>-times\<close> going backward, are at
  least 1, so every call runs its step at least once.
\<close>

lemma Suc_nat_tms: "0 \<le> tms \<Longrightarrow> nat (tms + 1) = Suc (nat tms)"
  by simp

lemma nat_neg_tms: "tms < 0 \<Longrightarrow> nat (- tms) = Suc (nat (- tms - 1))"
  by simp

lemma strfind_Str_forward:
  "0 \<le> tms \<Longrightarrow>
   strfind s (Str sub) st tms ov =
     for_range (Suc (nat tms))
       (\<lambda>p. py_find s sub (p + (if ov then 1 else int (length sub))))
       ((case st of None \<Rightarrow> 0 | Some c \<Rightarrow> c) - (if ov then 1 else int (length sub)))"
  by (cases st) (simp_all add: strfind.simps Let_def Suc_nat_tms del: for_range.simps)

lemma strfind_Str_backward:
  "tms < 0 \<Longrightarrow>
   strfind s (Str sub) st tms ov =
     for_range (Suc (nat (- tms - 1)))
       (\<lambda>p. py_rfind s sub 0 (p - (if ov then 1 else int (length sub))))
       ((case st of None \<Rightarrow> int (length s) - 1 | Some c \<Rightarrow> c)
          + (if ov then 1 else int (length sub)) + 1)"
  by (cases st) (simp_all add: strfind.simps Let_def nat_neg_tms del: for_range.simps)

lemma strfind_Seq_forward:
  "0 \<le> tms \<Longrightarrow>
   strfind s (Seq xs) st tms ov =
     for_range (Suc (nat tms))
       (\<lambda>p. nonnegative_min_value (map (\<lambda>x. strfind s x (Some (p + 1)) 0 ov) xs))
       ((case st of None \<Rightarrow> 0 | Some c \<Rightarrow> c) - 1)"
  by (cases st) (simp_all add: strfind.simps Let_def Suc_nat_tms del: for_range.simps)

lemma strfind_Seq_backward:
  "tms < 0 \<Longrightarrow>
   strfind s (Seq xs) st tms ov =
     for_range (Suc (nat (- tms - 1)))
       (\<lambda>p. nonnegative_max_value (map (\<lambda>x. strfind s x (Some (p - 1)) (- 1) ov) xs))
       ((case st of None \<Rightarrow> int (length s) - 1 | Some c \<Rightarrow> c) + 1)"
  by (cases st) (simp_all add: strfind.simps Let_def nat_neg_tms del: for_range.simps)

declare strfind.simps [simp del]

lemma for_range_fail: "step p = - 1 \<Longrightarrow> for_range (Suc k) step p = - 1"
  by simp

lemma for_range_fixed: "step p = p \<Longrightarrow> for_range k step p = p"
  by (induction k) (simp_all add: Let_def)

lemma for_range_snoc:
  "for_range (Suc (Suc k)) step p =
     (let q = for_range (Suc k) step p in if q = - 1 then - 1 else step q)"
proof (induction k arbitrary: p)
  case 0
  show ?case by (simp add: Let_def)
next
  case (Suc k)
  show ?case
  proof (cases "step p = - 1")
    case True
    then show ?thesis by simp
  next
    case False
    then have "for_range (Suc (Suc (Suc k))) step p = for_range (Suc (Suc k)) step (step p)"
      by (simp add: Let_def)
    also have "\<dots> = (let q = for_range (Suc k) step (step p) in if q = - 1 then - 1 else step q)"
      by (rule Suc.IH)
    also have "for_range (Suc k) step (step p) = for_range (Suc (Suc k)) step p"
      using False by (simp add: Let_def)
    finally show ?thesis .
  qed
qed

lemma for_range_invariant:
  assumes "\<And>p. step p = - 1 \<or> Q (step p)"
  shows "for_range (Suc k) step p = - 1 \<or> Q (for_range (Suc k) step p)"
proof (induction k arbitrary: p)
  case 0
  show ?case using assms[of p] by (auto simp: Let_def)
next
  case (Suc k)
  show ?case
  proof (cases "step p = - 1")
    case True
    then show ?thesis by simp
  next
    case False
    then have "for_range (Suc (Suc k)) step p = for_range (Suc k) step (step p)"
      by (simp add: Let_def)
    with Suc.IH[of "step p"] show ?thesis by simp
  qed
qed

declare for_range.simps [simp del]

lemma py_find_empty_at_0: "py_find s [] 0 = 0"
proof -
  have "occurs_at s [] 0" by (simp add: occurs_at_def)
  moreover have "nat (adjust_start 0 (int (length s))) = 0" by (simp add: adjust_start_def)
  ultimately show ?thesis
    using py_find_cases[of s "[]" 0] by (metis int_ops(1) le0 not_gr_zero)
qed

lemma nonnegative_min_value_Nil: "nonnegative_min_value [] = - 1"
  by (simp add: nonnegative_min_value_def)

lemma nonnegative_max_value_Nil: "nonnegative_max_value [] = - 1"
  by (simp add: nonnegative_max_value_def)

section \<open>The primitives and the reducers return -1 or a position\<close>

lemma py_find_result:
  "py_find s sub start = - 1 \<or>
   (0 \<le> py_find s sub start \<and> occurs_at s sub (nat (py_find s sub start)))"
  using py_find_cases[of s sub start] by auto

lemma py_rfind_result:
  "py_rfind s sub 0 e = - 1 \<or>
   (0 \<le> py_rfind s sub 0 e \<and> occurs_at s sub (nat (py_rfind s sub 0 e)))"
  using py_rfind_cases[of s sub e] by auto

lemma py_find_longer: "length s < length sub \<Longrightarrow> py_find s sub start = - 1"
  using py_find_result[of s sub start] by (auto simp: occurs_at_def)

lemma py_rfind_longer: "length s < length sub \<Longrightarrow> py_rfind s sub 0 e = - 1"
  using py_rfind_result[of s sub e] by (auto simp: occurs_at_def)

lemma nonnegative_min_value_none:
  "(\<forall>v\<in>set arr. v < 0) \<Longrightarrow> nonnegative_min_value arr = - 1"
proof -
  assume "\<forall>v\<in>set arr. v < 0"
  then have "filter (\<lambda>x. x \<ge> 0) arr = []" by (auto simp: filter_empty_conv)
  then show ?thesis by (simp add: nonnegative_min_value_def)
qed

lemma nonnegative_max_value_none:
  "(\<forall>v\<in>set arr. v < 0) \<Longrightarrow> nonnegative_max_value arr = - 1"
proof -
  assume "\<forall>v\<in>set arr. v < 0"
  then have "filter (\<lambda>x. x \<ge> 0) arr = []" by (auto simp: filter_empty_conv)
  then show ?thesis by (simp add: nonnegative_max_value_def)
qed

lemma nonnegative_min_value_some:
  assumes "\<exists>v\<in>set arr. 0 \<le> v"
  shows "nonnegative_min_value arr = Min {v \<in> set arr. 0 \<le> v}"
proof -
  from assms obtain x xs where f: "filter (\<lambda>x. x \<ge> 0) arr = x # xs"
    by (cases "filter (\<lambda>x. x \<ge> 0) arr") (auto simp: filter_empty_conv)
  then have "nonnegative_min_value arr = Min (set (x # xs))"
    by (simp only: nonnegative_min_value_def list.case Min.set_eq_fold)
  also have "set (x # xs) = {v \<in> set arr. 0 \<le> v}"
    unfolding f[symmetric] by auto
  finally show ?thesis .
qed

lemma nonnegative_max_value_some:
  assumes "\<exists>v\<in>set arr. 0 \<le> v"
  shows "nonnegative_max_value arr = Max {v \<in> set arr. 0 \<le> v}"
proof -
  from assms obtain x xs where f: "filter (\<lambda>x. x \<ge> 0) arr = x # xs"
    by (cases "filter (\<lambda>x. x \<ge> 0) arr") (auto simp: filter_empty_conv)
  then have "nonnegative_max_value arr = Max (set (x # xs))"
    by (simp only: nonnegative_max_value_def list.case Max.set_eq_fold)
  also have "set (x # xs) = {v \<in> set arr. 0 \<le> v}"
    unfolding f[symmetric] by auto
  finally show ?thesis .
qed

lemma nonnegative_min_value_result:
  "nonnegative_min_value arr = - 1 \<or>
   (0 \<le> nonnegative_min_value arr \<and> nonnegative_min_value arr \<in> set arr)"
proof (cases "\<exists>v\<in>set arr. 0 \<le> v")
  case True
  then have ne: "{v \<in> set arr. 0 \<le> v} \<noteq> {}" by blast
  have "Min {v \<in> set arr. 0 \<le> v} \<in> {v \<in> set arr. 0 \<le> v}"
    by (rule Min_in) (use ne in simp_all)
  then show ?thesis by (simp add: nonnegative_min_value_some[OF True])
next
  case False
  then show ?thesis by (simp add: nonnegative_min_value_none not_le)
qed

lemma nonnegative_max_value_result:
  "nonnegative_max_value arr = - 1 \<or>
   (0 \<le> nonnegative_max_value arr \<and> nonnegative_max_value arr \<in> set arr)"
proof (cases "\<exists>v\<in>set arr. 0 \<le> v")
  case True
  then have ne: "{v \<in> set arr. 0 \<le> v} \<noteq> {}" by blast
  have "Max {v \<in> set arr. 0 \<le> v} \<in> {v \<in> set arr. 0 \<le> v}"
    by (rule Max_in) (use ne in simp_all)
  then show ?thesis by (simp add: nonnegative_max_value_some[OF True])
next
  case False
  then show ?thesis by (simp add: nonnegative_max_value_none not_le)
qed

section \<open>One needle: the loops against the occurrences\<close>

lemma for_range_once: "for_range (Suc 0) step p = step p"
  by (simp add: for_range.simps Let_def)

lemma strfind_Str_result:
  "strfind s (Str x) st tms ov = - 1 \<or>
   (0 \<le> strfind s (Str x) st tms ov \<and> occurs_at s x (nat (strfind s (Str x) st tms ov)))"
proof (cases "0 \<le> tms")
  case True
  let ?step = "\<lambda>p. py_find s x (p + (if ov then 1 else int (length x)))"
  have "for_range (Suc (nat tms)) ?step p0 = - 1 \<or>
        (0 \<le> for_range (Suc (nat tms)) ?step p0 \<and>
         occurs_at s x (nat (for_range (Suc (nat tms)) ?step p0)))" for p0
    by (rule for_range_invariant) (rule py_find_result)
  then show ?thesis unfolding strfind_Str_forward[OF True] by simp
next
  case False
  then have neg: "tms < 0" by simp
  let ?step = "\<lambda>p. py_rfind s x 0 (p - (if ov then 1 else int (length x)))"
  have "for_range (Suc (nat (- tms - 1))) ?step p0 = - 1 \<or>
        (0 \<le> for_range (Suc (nat (- tms - 1))) ?step p0 \<and>
         occurs_at s x (nat (for_range (Suc (nat (- tms - 1))) ?step p0)))" for p0
    by (rule for_range_invariant) (rule py_rfind_result)
  then show ?thesis unfolding strfind_Str_backward[OF neg] by simp
qed

lemma py_rfind_at_occurrence:
  assumes "occurs_at s sub i"
  shows "py_rfind s sub 0 (int i + int (length sub)) = int i"
proof -
  let ?e = "int i + int (length sub)"
  have le: "i + length sub \<le> length s" using assms by (simp add: occurs_at_def)
  then have b: "nat (adjust_end ?e (int (length s))) = i + length sub"
    by (simp add: adjust_end_def)
  from py_rfind_cases[of s sub ?e] assms
  obtain i' where i': "py_rfind s sub 0 ?e = int i'" "i' + length sub \<le> i + length sub"
      "\<forall>j. i' < j \<and> j + length sub \<le> i + length sub \<longrightarrow> \<not> occurs_at s sub j"
    unfolding b by blast
  have "\<not> i' < i" using i'(3) assms by auto
  with i'(2) have "i' = i" by simp
  with i'(1) show ?thesis by simp
qed

lemma py_find_first_from:
  assumes "0 \<le> c"
  shows "(py_find s sub c = - 1 \<and> (\<forall>i. \<not> first_from s sub (nat c) i)) \<or>
         (0 \<le> py_find s sub c \<and> first_from s sub (nat c) (nat (py_find s sub c)))"
proof -
  have "adjust_start c (int (length s)) = c" using assms by (simp add: adjust_start_def)
  with py_find_cases[of s sub c] show ?thesis
    unfolding first_from_def by auto
qed

lemma first_from_unique: "first_from s sub c i \<Longrightarrow> first_from s sub c i' \<Longrightarrow> i = i'"
  unfolding first_from_def by (meson atLeastLessThan_iff linorder_neqE_nat)

lemma first_from_le: "first_from s sub c i \<Longrightarrow> c \<le> i"
  by (simp add: first_from_def)

lemma kth_from_unique: "kth_from s sub adv c k i \<Longrightarrow> kth_from s sub adv c k i' \<Longrightarrow> i = i'"
proof (induction k arbitrary: i i')
  case 0
  then show ?case by (simp add: first_from_unique)
next
  case (Suc k)
  then obtain q q' where q: "kth_from s sub adv c k q" "first_from s sub (q + adv) i"
      "kth_from s sub adv c k q'" "first_from s sub (q' + adv) i'"
    by auto
  from Suc.IH[OF q(1) q(3)] have "q = q'" .
  with q(2,4) show ?case by (simp add: first_from_unique)
qed

lemma forward_loop_kth:
  fixes s sub :: "'a list" and d c k :: nat
  defines "r \<equiv> for_range (Suc k) (\<lambda>p. py_find s sub (p + int d)) (int c - int d)"
  shows "(r = - 1 \<and> (\<forall>i. \<not> kth_from s sub d c k i)) \<or> (0 \<le> r \<and> kth_from s sub d c k (nat r))"
  unfolding r_def
proof (induction k)
  case 0
  from py_find_first_from[of "int c" s sub] show ?case
    by (simp add: for_range_once)
next
  case (Suc k)
  let ?step = "\<lambda>p. py_find s sub (p + int d)"
  let ?q = "for_range (Suc k) ?step (int c - int d)"
  have snoc: "for_range (Suc (Suc k)) ?step (int c - int d) =
              (if ?q = - 1 then - 1 else py_find s sub (?q + int d))"
    by (simp add: for_range_snoc Let_def)
  from Suc.IH show ?case
  proof
    assume "?q = - 1 \<and> (\<forall>i. \<not> kth_from s sub d c k i)"
    then show ?thesis unfolding snoc by simp
  next
    assume q: "0 \<le> ?q \<and> kth_from s sub d c k (nat ?q)"
    then have ne: "?q \<noteq> - 1" and nq: "nat (?q + int d) = nat ?q + d"
      by (simp_all add: nat_add_distrib)
    from q have pos: "0 \<le> ?q + int d" by simp
    from py_find_first_from[OF pos, of s sub] show ?thesis
    proof
      assume f: "py_find s sub (?q + int d) = - 1 \<and> (\<forall>i. \<not> first_from s sub (nat (?q + int d)) i)"
      have "\<not> kth_from s sub d c (Suc k) i" for i
      proof
        assume "kth_from s sub d c (Suc k) i"
        then obtain q' where q': "kth_from s sub d c k q'" "first_from s sub (q' + d) i" by auto
        with q have "q' = nat ?q" by (simp add: kth_from_unique)
        with q'(2) f nq show False by simp
      qed
      with f ne show ?thesis unfolding snoc by simp
    next
      assume f: "0 \<le> py_find s sub (?q + int d) \<and>
                 first_from s sub (nat (?q + int d)) (nat (py_find s sub (?q + int d)))"
      then have "nat ?q \<le> nat (py_find s sub (?q + int d))"
        using first_from_le[of s sub "nat (?q + int d)"] nq by fastforce
      with f q nq have "kth_from s sub d c (Suc k) (nat (py_find s sub (?q + int d)))" by auto
      with f ne show ?thesis unfolding snoc by simp
    qed
  qed
qed

section \<open>A collection of needles: one step and the next\<close>

lemma nonnegative_min_value_spec:
  "if \<forall>v\<in>set arr. v < 0 then nonnegative_min_value arr = - 1
   else 0 \<le> nonnegative_min_value arr \<and> nonnegative_min_value arr \<in> set arr \<and>
        (\<forall>v\<in>set arr. 0 \<le> v \<longrightarrow> nonnegative_min_value arr \<le> v)"
proof (cases "\<forall>v\<in>set arr. v < 0")
  case True
  then show ?thesis by (simp add: nonnegative_min_value_none)
next
  case False
  then have ex: "\<exists>v\<in>set arr. 0 \<le> v" by (auto simp: not_less)
  let ?S = "{v \<in> set arr. 0 \<le> v}"
  have fin: "finite ?S" and ne: "?S \<noteq> {}" using ex by auto
  have "Min ?S \<in> ?S" using fin ne by (rule Min_in)
  moreover have "\<forall>v\<in>set arr. 0 \<le> v \<longrightarrow> Min ?S \<le> v" using fin by (simp add: Min_le)
  ultimately show ?thesis using False by (simp add: nonnegative_min_value_some[OF ex])
qed

lemma nonnegative_max_value_spec:
  "if \<forall>v\<in>set arr. v < 0 then nonnegative_max_value arr = - 1
   else 0 \<le> nonnegative_max_value arr \<and> nonnegative_max_value arr \<in> set arr \<and>
        (\<forall>v\<in>set arr. 0 \<le> v \<longrightarrow> v \<le> nonnegative_max_value arr)"
proof (cases "\<forall>v\<in>set arr. v < 0")
  case True
  then show ?thesis by (simp add: nonnegative_max_value_none)
next
  case False
  then have ex: "\<exists>v\<in>set arr. 0 \<le> v" by (auto simp: not_less)
  let ?S = "{v \<in> set arr. 0 \<le> v}"
  have fin: "finite ?S" and ne: "?S \<noteq> {}" using ex by auto
  have "Max ?S \<in> ?S" using fin ne by (rule Max_in)
  moreover have "\<forall>v\<in>set arr. 0 \<le> v \<longrightarrow> v \<le> Max ?S" using fin by (simp add: Max_ge)
  ultimately show ?thesis using False by (simp add: nonnegative_max_value_some[OF ex])
qed

lemma strfind_Seq_forward_step:
  "strfind s (Seq xs) (Some c) 0 ov =
     nonnegative_min_value (map (\<lambda>x. strfind s x (Some c) 0 ov) xs)"
  by (simp add: strfind_Seq_forward for_range_once)

lemma strfind_Seq_backward_step:
  "strfind s (Seq xs) (Some c) (- 1) ov =
     nonnegative_max_value (map (\<lambda>x. strfind s x (Some c) (- 1) ov) xs)"
  by (simp add: strfind_Seq_backward for_range_once)

lemma strfind_Seq_forward_next:
  assumes "0 \<le> tms"
  shows "strfind s (Seq xs) st (tms + 1) ov =
     (let p = strfind s (Seq xs) st tms ov in
      if p = - 1 then - 1 else strfind s (Seq xs) (Some (p + 1)) 0 ov)"
proof -
  from assms have 1: "0 \<le> tms + 1" and n: "nat (tms + 1) = Suc (nat tms)" by simp_all
  show ?thesis
    unfolding strfind_Seq_forward_step
    by (simp add: strfind_Seq_forward[OF assms] strfind_Seq_forward[OF 1] n for_range_snoc)
qed

lemma strfind_Seq_backward_next:
  assumes "tms < 0"
  shows "strfind s (Seq xs) st (tms - 1) ov =
     (let p = strfind s (Seq xs) st tms ov in
      if p = - 1 then - 1 else strfind s (Seq xs) (Some (p - 1)) (- 1) ov)"
proof -
  from assms have 1: "tms - 1 < 0" and n: "nat (- tms) = Suc (nat (- tms - 1))"
    by simp_all
  show ?thesis
    unfolding strfind_Seq_backward_step
    by (simp add: strfind_Seq_backward[OF assms] strfind_Seq_backward[OF 1] n for_range_snoc)
qed

section \<open>Every result is -1 or a position of a needle\<close>

text \<open>
  \<^verbatim>\<open>strfind\<close> has no \<^verbatim>\<open>raise\<close>; \<^verbatim>\<open>find\<close> and \<^verbatim>\<open>rfind\<close> clip any bound, and \<^verbatim>\<open>min\<close> and
  \<^verbatim>\<open>max\<close> are guarded against the empty tuple. Its loops run \<open>nat (tms + 1)\<close> or
  \<open>nat (- tms)\<close> times and its recursion descends into the collection, so it is a total
  function, and what it returns is -1 or a position at which one of the needle strings
  occurs in the haystack.
\<close>

lemma strfind_result:
  "strfind fullstr objstr start tms overlap = - 1 \<or>
   (0 \<le> strfind fullstr objstr start tms overlap \<and>
    (\<exists>x\<in>strings_of objstr.
       occurs_at fullstr x (nat (strfind fullstr objstr start tms overlap))))"
proof (induction objstr arbitrary: start tms)
  case (Str x)
  let ?Q = "\<lambda>r. 0 \<le> r \<and> occurs_at fullstr x (nat r)"
  show ?case
  proof (cases "0 \<le> tms")
    case True
    let ?step = "\<lambda>p. py_find fullstr x (p + (if overlap then 1 else int (length x)))"
    have "for_range (Suc (nat tms)) ?step p0 = - 1 \<or> ?Q (for_range (Suc (nat tms)) ?step p0)"
      for p0
      by (rule for_range_invariant) (rule py_find_result)
    then show ?thesis unfolding strfind_Str_forward[OF True] by simp
  next
    case False
    then have neg: "tms < 0" by simp
    let ?step = "\<lambda>p. py_rfind fullstr x 0 (p - (if overlap then 1 else int (length x)))"
    have "for_range (Suc (nat (- tms - 1))) ?step p0 = - 1 \<or>
          ?Q (for_range (Suc (nat (- tms - 1))) ?step p0)" for p0
      by (rule for_range_invariant) (rule py_rfind_result)
    then show ?thesis unfolding strfind_Str_backward[OF neg] by simp
  qed
next
  case (Seq xs)
  let ?Q = "\<lambda>r. 0 \<le> r \<and> (\<exists>x\<in>strings_of (Seq xs). occurs_at fullstr x (nat r))"
  have pick: "r = - 1 \<or> ?Q r"
    if "r = - 1 \<or> (0 \<le> r \<and> r \<in> set (map (\<lambda>x. strfind fullstr x st t overlap) xs))"
    for r st t
  proof (cases "r = - 1")
    case True
    then show ?thesis by simp
  next
    case False
    with that obtain x where x: "x \<in> set xs" "r = strfind fullstr x st t overlap" "0 \<le> r"
      by auto
    with Seq.IH[OF x(1), of st t] have "\<exists>y\<in>strings_of x. occurs_at fullstr y (nat r)"
      by auto
    with x show ?thesis by auto
  qed
  show ?case
  proof (cases "0 \<le> tms")
    case True
    let ?step = "\<lambda>p. nonnegative_min_value
                        (map (\<lambda>x. strfind fullstr x (Some (p + 1)) 0 overlap) xs)"
    have "for_range (Suc (nat tms)) ?step p0 = - 1 \<or> ?Q (for_range (Suc (nat tms)) ?step p0)"
      for p0
      by (rule for_range_invariant) (rule pick, rule nonnegative_min_value_result)
    then show ?thesis unfolding strfind_Seq_forward[OF True] by blast
  next
    case False
    then have neg: "tms < 0" by simp
    let ?step = "\<lambda>p. nonnegative_max_value
                        (map (\<lambda>x. strfind fullstr x (Some (p - 1)) (- 1) overlap) xs)"
    have "for_range (Suc (nat (- tms - 1))) ?step p0 = - 1 \<or>
          ?Q (for_range (Suc (nat (- tms - 1))) ?step p0)" for p0
      by (rule for_range_invariant) (rule pick, rule nonnegative_max_value_result)
    then show ?thesis unfolding strfind_Seq_backward[OF neg] by blast
  qed
qed

section \<open>The examples of the docstring\<close>

lemma ex_forward: "strfind ''aabbaabb'' (Str ''bb'') None 1 False = 6"
  by code_simp

lemma ex_kth: "strfind ''aabbaabb'' (Str ''bb'') (Some 0) 1 False = 6"
  by code_simp

text \<open>
  The occurrences themselves, read off the haystack without the search: \<open>bb\<close> occurs
  in \<open>aabbaabb\<close> first at 2 and, past that match, at 6.
\<close>

lemma ex_first_from:
  "first_from ''aabbaabb'' ''bb'' 0 2 \<and> first_from ''aabbaabb'' ''bb'' 4 6 \<and>
   \<not> first_from ''aabbaabb'' ''bb'' 0 6"
  by code_simp

lemma ex_occurrences:
  "kth_from ''aabbaabb'' ''bb'' 2 0 0 2 \<and> kth_from ''aabbaabb'' ''bb'' 2 0 (Suc 0) 6"
proof -
  have 0: "kth_from ''aabbaabb'' ''bb'' 2 0 0 2" using ex_first_from by simp
  have "(2::nat) \<in> {..6}" by simp
  moreover have "first_from ''aabbaabb'' ''bb'' (2 + 2) 6" using ex_first_from by simp
  ultimately have "kth_from ''aabbaabb'' ''bb'' 2 0 (Suc 0) 6"
    using 0 unfolding kth_from.simps by blast
  with 0 show ?thesis by simp
qed

lemma ex_collection: "strfind ''aabbaabb'' (Seq [Str ''aa'', Str ''bb'']) None 2 False = 4"
  by code_simp

lemma ex_collection_1: "strfind ''aabbaabb'' (Seq [Str ''aa'', Str ''bb'']) None 1 False = 2"
  by code_simp

lemma ex_collection_back: "strfind ''aabbaabb'' (Seq [Str ''aa'', Str ''bb'']) None (- 1) False = 6"
  by code_simp

section \<open>Properties of strfind\<close>

text \<open>
  C1. One needle, \<^verbatim>\<open>times \<ge> 0\<close>, a start \<open>start \<ge> 0\<close> (0 when it is not given) and
  \<^verbatim>\<open>overlap=False\<close>: \<^verbatim>\<open>strfind\<close> returns the start index of the \<open>(tms+1)\<close>-th
  non-overlapping occurrence of the needle at or after \<open>start\<close>, and -1 exactly when there
  is no such occurrence. One more occurrence asked for is one more \<^verbatim>\<open>find\<close>, begun at the
  prior match plus the needle's length, and a step that finds nothing makes every later
  result -1. In particular \<^verbatim>\<open>strfind('aabbaabb', 'bb', times=1)\<close> is 6.
\<close>

theorem strfind_forward_nonoverlapping:
  "0 \<le> start \<Longrightarrow> 0 \<le> tms \<Longrightarrow>
   (let p = strfind s (Str sub) (Some start) tms False in
      (p = - 1 \<and> (\<forall>i. \<not> kth_from s sub (length sub) (nat start) (nat tms) i)) \<or>
      (0 \<le> p \<and> kth_from s sub (length sub) (nat start) (nat tms) (nat p))) \<and>
   strfind s (Str sub) None tms False = strfind s (Str sub) (Some 0) tms False \<and>
   strfind s (Str sub) (Some start) (tms + 1) False =
     (let p = strfind s (Str sub) (Some start) tms False in
      if p = - 1 then - 1 else py_find s sub (p + int (length sub))) \<and>
   strfind ''aabbaabb'' (Str ''bb'') None 1 False = 6"
proof -
  assume st: "0 \<le> start" and tm: "0 \<le> tms"
  then have tm1: "0 \<le> tms + 1" by simp
  have "strfind s (Str sub) (Some start) tms False =
        for_range (Suc (nat tms)) (\<lambda>p. py_find s sub (p + int (length sub)))
          (int (nat start) - int (length sub))"
    using st by (simp add: strfind_Str_forward[OF tm])
  with forward_loop_kth[of "nat tms" s sub "length sub" "nat start"]
  have a: "(let p = strfind s (Str sub) (Some start) tms False in
      (p = - 1 \<and> (\<forall>i. \<not> kth_from s sub (length sub) (nat start) (nat tms) i)) \<or>
      (0 \<le> p \<and> kth_from s sub (length sub) (nat start) (nat tms) (nat p)))"
    by (simp add: Let_def)
  have b: "strfind s (Str sub) None tms False = strfind s (Str sub) (Some 0) tms False"
    by (simp add: strfind_Str_forward[OF tm])
  have "nat (tms + 1) = Suc (nat tms)" using tm by simp
  then have c: "strfind s (Str sub) (Some start) (tms + 1) False =
     (let p = strfind s (Str sub) (Some start) tms False in
      if p = - 1 then - 1 else py_find s sub (p + int (length sub)))"
    by (simp add: strfind_Str_forward[OF tm] strfind_Str_forward[OF tm1] for_range_snoc)
  have d: "strfind ''aabbaabb'' (Str ''bb'') None 1 False = 6"
    by (rule ex_forward)
  from a b c d show ?thesis by blast
qed

theorem strfind_forward_nonoverlapping_witness:
  "(0::int) \<le> 0 \<and> (0::int) \<le> 1 \<and> kth_from ''aabbaabb'' ''bb'' 2 0 1 6"
proof -
  have 1: "(0::int) \<le> 0" and 2: "(0::int) \<le> 1" by simp_all
  from strfind_forward_nonoverlapping [OF 1 2, of "''aabbaabb''" "''bb''"]
  have "kth_from ''aabbaabb'' ''bb'' (length ''bb'') (nat 0) (nat 1) (nat 6)"
    unfolding ex_kth Let_def by simp
  then show ?thesis by simp
qed

text \<open>
  C2. Going backward, the first step is right: \<^verbatim>\<open>strfind('aabaa', 'aa', times=-1)\<close> is
  3, the start of the last occurrence. Each later step calls
  \<^verbatim>\<open>rfind(objstr, 0, p - offset)\<close>, where \<open>p\<close> is the start of the prior match and the
  third argument of \<^verbatim>\<open>rfind\<close> bounds the end of the next one: the next match has to end
  \<open>offset\<close> characters before the prior match starts. So \<^verbatim>\<open>strfind('aabaa', 'aa', times=-2)\<close>
  is -1, although \<open>aa\<close> occurs at 0, wholly before the match at 3; the forward search
  finds both occurrences, and the same backward search through a collection,
  \<^verbatim>\<open>strfind('aabaa', ['aa'], times=-2)\<close>, returns 0.
\<close>

theorem strfind_backward_second_missed:
  "strfind ''aabaa'' (Str ''aa'') None (- 2) False = - 1 \<and>
   occurs_at ''aabaa'' ''aa'' 3 \<and> occurs_at ''aabaa'' ''aa'' 0 \<and>
   strfind ''aabaa'' (Str ''aa'') None (- 1) False = 3 \<and>
   strfind ''aabaa'' (Seq [Str ''aa'']) None (- 2) False = 0 \<and>
   strfind ''aabaa'' (Str ''aa'') None 1 False = 3"
  by code_simp

text \<open>
  C3. A collection of needles. One forward step from the cursor \<open>c\<close> runs the search
  for every needle from \<open>c\<close> and returns the least non-negative of the results; one
  backward step returns the greatest; either returns -1 exactly when every needle's
  result is negative, an empty collection included. The search for one more occurrence
  is the search so far followed by one more step from the cursor next to its result
  (\<open>p + 1\<close> forward, \<open>p - 1\<close> backward), and -1 once a step has returned -1. In particular
  \<^verbatim>\<open>strfind('aabbaabb', ['aa', 'bb'], times=2)\<close> is 4.
\<close>

theorem strfind_collection_steps:
  "(let cands = map (\<lambda>x. strfind s x (Some c) 0 ov) xs;
        r = strfind s (Seq xs) (Some c) 0 ov
    in if \<forall>v\<in>set cands. v < 0 then r = - 1
       else 0 \<le> r \<and> r \<in> set cands \<and> (\<forall>v\<in>set cands. 0 \<le> v \<longrightarrow> r \<le> v)) \<and>
   (let cands = map (\<lambda>x. strfind s x (Some c) (- 1) ov) xs;
        r = strfind s (Seq xs) (Some c) (- 1) ov
    in if \<forall>v\<in>set cands. v < 0 then r = - 1
       else 0 \<le> r \<and> r \<in> set cands \<and> (\<forall>v\<in>set cands. 0 \<le> v \<longrightarrow> v \<le> r)) \<and>
   (0 \<le> tms \<longrightarrow>
      strfind s (Seq xs) None tms ov = strfind s (Seq xs) (Some 0) tms ov \<and>
      strfind s (Seq xs) st (tms + 1) ov =
        (let p = strfind s (Seq xs) st tms ov in
         if p = - 1 then - 1 else strfind s (Seq xs) (Some (p + 1)) 0 ov)) \<and>
   (tms < 0 \<longrightarrow>
      strfind s (Seq xs) None tms ov = strfind s (Seq xs) (Some (int (length s) - 1)) tms ov \<and>
      strfind s (Seq xs) st (tms - 1) ov =
        (let p = strfind s (Seq xs) st tms ov in
         if p = - 1 then - 1 else strfind s (Seq xs) (Some (p - 1)) (- 1) ov)) \<and>
   strfind ''aabbaabb'' (Seq [Str ''aa'', Str ''bb'']) None 2 False = 4"
proof -
  have a: "let cands = map (\<lambda>x. strfind s x (Some c) 0 ov) xs;
        r = strfind s (Seq xs) (Some c) 0 ov
    in if \<forall>v\<in>set cands. v < 0 then r = - 1
       else 0 \<le> r \<and> r \<in> set cands \<and> (\<forall>v\<in>set cands. 0 \<le> v \<longrightarrow> r \<le> v)"
    unfolding Let_def strfind_Seq_forward_step by (rule nonnegative_min_value_spec)
  have b: "let cands = map (\<lambda>x. strfind s x (Some c) (- 1) ov) xs;
        r = strfind s (Seq xs) (Some c) (- 1) ov
    in if \<forall>v\<in>set cands. v < 0 then r = - 1
       else 0 \<le> r \<and> r \<in> set cands \<and> (\<forall>v\<in>set cands. 0 \<le> v \<longrightarrow> v \<le> r)"
    unfolding Let_def strfind_Seq_backward_step by (rule nonnegative_max_value_spec)
  have c1: "strfind s (Seq xs) None tms ov = strfind s (Seq xs) (Some 0) tms ov" if "0 \<le> tms"
    by (simp add: strfind_Seq_forward[OF that])
  have d1: "strfind s (Seq xs) None tms ov = strfind s (Seq xs) (Some (int (length s) - 1)) tms ov"
    if "tms < 0"
    by (simp add: strfind_Seq_backward[OF that])
  from a b c1 d1 strfind_Seq_forward_next[of tms s xs st ov]
    strfind_Seq_backward_next[of tms s xs st ov] ex_collection
  show ?thesis by blast
qed

theorem strfind_collection_steps_witness:
  "(0::int) \<le> 1 \<and> (- 1::int) < 0 \<and>
   strfind ''aabbaabb'' (Seq [Str ''aa'', Str ''bb'']) (Some 3) 0 False = 4 \<and>
   strfind ''aabbaabb'' (Seq [Str ''aa'', Str ''bb'']) None (- 2) False =
     strfind ''aabbaabb'' (Seq [Str ''aa'', Str ''bb'']) (Some 5) (- 1) False"
proof -
  have 1: "(0::int) \<le> 1" and 2: "(- 1::int) < 0" by simp_all
  note t = strfind_collection_steps [of "''aabbaabb''" 3 False "[Str ''aa'', Str ''bb'']" _ None]
  from t [of 1] 1 have f: "strfind ''aabbaabb'' (Seq [Str ''aa'', Str ''bb'']) None 2 False =
    strfind ''aabbaabb'' (Seq [Str ''aa'', Str ''bb'']) (Some 3) 0 False"
    by (simp add: ex_collection_1)
  from t [of "- 1"] 2 have g: "strfind ''aabbaabb'' (Seq [Str ''aa'', Str ''bb'']) None (- 2) False =
    strfind ''aabbaabb'' (Seq [Str ''aa'', Str ''bb'']) (Some 5) (- 1) False"
    by (simp add: ex_collection_back)
  from t [of 0] have "strfind ''aabbaabb'' (Seq [Str ''aa'', Str ''bb'']) None 2 False = 4"
    by blast
  with f g 1 2 show ?thesis by simp
qed

text \<open>
  C4. With one needle the cursor advances by 1 when \<^verbatim>\<open>overlap=True\<close> and by the
  needle's length otherwise: \<^verbatim>\<open>strfind('aaaa', 'aa', times=1)\<close> is 2, and 1 with
  \<^verbatim>\<open>overlap=True\<close>. With a collection the loop advances by 1 whatever \<^verbatim>\<open>overlap\<close> is, and
  \<^verbatim>\<open>overlap\<close> is passed on only to searches for a first occurrence, where it changes
  nothing: \<^verbatim>\<open>strfind('aaaa', ['aa'], times=1)\<close> with \<^verbatim>\<open>overlap=False\<close> is 1, a match
  that overlaps the first one at 0.
\<close>

theorem strfind_collection_ignores_overlap:
  "strfind ''aaaa'' (Seq [Str ''aa'']) None 0 False = 0 \<and>
   strfind ''aaaa'' (Seq [Str ''aa'']) None 1 False = 1 \<and>
   strfind ''aaaa'' (Str ''aa'') None 1 False = 2 \<and>
   strfind ''aaaa'' (Str ''aa'') None 1 True = 1"
  by code_simp

text \<open>
  C5, as the code has it. A needle strictly longer than the haystack is never found:
  \<^verbatim>\<open>strfind\<close> returns -1 for every occurrence count, start and overlap setting, for a
  single such string and for a collection of such strings. An empty haystack with
  non-empty needles is the case \<open>fullstr = []\<close>.
\<close>

theorem strfind_longer_needle:
  "all_longer fullstr objstr \<Longrightarrow> strfind fullstr objstr start tms overlap = - 1"
proof (induction objstr arbitrary: start tms)
  case (Str x)
  then have len: "length fullstr < length x" by simp
  show ?case
  proof (cases "0 \<le> tms")
    case True
    then show ?thesis
      by (simp only: strfind_Str_forward py_find_longer[OF len] for_range_fail)
  next
    case False
    then have "tms < 0" by simp
    then show ?thesis
      by (simp only: strfind_Str_backward py_rfind_longer[OF len] for_range_fail)
  qed
next
  case (Seq xs)
  then have ih: "strfind fullstr x st t overlap = - 1" if "x \<in> set xs" for x st t
    using that by (simp add: list_all_iff)
  show ?case
  proof (cases "0 \<le> tms")
    case True
    have "nonnegative_min_value (map (\<lambda>x. strfind fullstr x (Some (p + 1)) 0 overlap) xs) = - 1" for p
      by (rule nonnegative_min_value_none) (auto simp: ih)
    with True show ?thesis
      by (simp only: strfind_Seq_forward for_range_fail)
  next
    case False
    then have neg: "tms < 0" by simp
    have "nonnegative_max_value (map (\<lambda>x. strfind fullstr x (Some (p - 1)) (- 1) overlap) xs) = - 1" for p
      by (rule nonnegative_max_value_none) (auto simp: ih)
    with neg show ?thesis
      by (simp only: strfind_Seq_backward for_range_fail)
  qed
qed

theorem strfind_longer_needle_witness:
  "all_longer ''ab'' (Seq [Str ''abc'', Str ''abcd'']) \<and>
   strfind ''ab'' (Seq [Str ''abc'', Str ''abcd'']) (Some 1) (- 2) True = - 1 \<and>
   all_longer [] (Str ''a'') \<and> strfind [] (Str ''a'') None 0 False = - 1"
proof -
  have 1: "all_longer ''ab'' (Seq [Str ''abc'', Str ''abcd''])" by simp
  have 2: "all_longer [] (Str ''a'')" by simp
  show ?thesis
    using 1 2 strfind_longer_needle [OF 1, of "Some 1" "- 2" True]
      strfind_longer_needle [OF 2, of None 0 False]
    by (simp only: simp_thms)
qed

text \<open>
  C5 as stated also promises -1 for the empty needle in the empty haystack. There
  Python's \<^verbatim>\<open>''.find('')\<close> is 0, and so is \<^verbatim>\<open>strfind('', '')\<close>.
\<close>

theorem strfind_empty_haystack_counterexample:
  "strfind ([] :: string) (Str []) None 0 False \<noteq> - 1"
  by (simp add: strfind_Str_forward for_range_fixed py_find_empty_at_0)


text \<open>
  C7. One needle, \<^verbatim>\<open>times \<ge> 0\<close>, any start and overlap setting: when the forward search
  returns a position \<open>p\<close> other than -1, a single backward step (\<^verbatim>\<open>times=-1\<close>) started
  at the last character of that match, \<open>p + len(needle) - 1\<close>, returns \<open>p\<close> again.
\<close>

theorem strfind_forward_then_backward:
  assumes "0 \<le> tms" and "strfind h (Str nd) start tms ov = p" and "p \<noteq> - 1"
  shows "strfind h (Str nd) (Some (p + int (length nd) - 1)) (- 1) ov = p"
proof -
  from strfind_Str_result[of h nd start tms ov] assms(2,3)
  have p: "0 \<le> p" "occurs_at h nd (nat p)" by auto
  let ?d = "if ov then 1 else int (length nd)"
  have "strfind h (Str nd) (Some (p + int (length nd) - 1)) (- 1) ov =
        py_rfind h nd 0 (p + int (length nd) - 1 + ?d + 1 - ?d)"
    by (simp add: strfind_Str_backward for_range_once)
  also have "p + int (length nd) - 1 + ?d + 1 - ?d = int (nat p) + int (length nd)"
    using p(1) by simp
  also have "py_rfind h nd 0 (int (nat p) + int (length nd)) = int (nat p)"
    by (rule py_rfind_at_occurrence[OF p(2)])
  finally show ?thesis using p(1) by simp
qed

theorem strfind_forward_then_backward_witness:
  "(0::int) \<le> 1 \<and> strfind ''aabbaabb'' (Str ''bb'') None 1 False = 6 \<and> (6::int) \<noteq> - 1 \<and>
   strfind ''aabbaabb'' (Str ''bb'') (Some (6 + int (length ''bb'') - 1)) (- 1) False = 6"
proof -
  have 1: "(0::int) \<le> 1" and 3: "(6::int) \<noteq> - 1" by simp_all
  note 2 = ex_forward
  from strfind_forward_then_backward [OF 1 2 3] 1 2 3 show ?thesis by blast
qed

text \<open>
  C9. For every haystack, the empty one included, and every occurrence count
  \<open>tms \<ge> 0\<close>, with the default start and \<^verbatim>\<open>overlap=False\<close>, the empty needle is found at 0:
  the cursor never moves, since the needle's length is the advance. In particular
  \<^verbatim>\<open>strfind('', '')\<close> is 0 and not -1.
\<close>

theorem strfind_empty_needle:
  "0 \<le> tms \<Longrightarrow> strfind h (Str []) None tms False = 0"
  by (simp add: strfind_Str_forward for_range_fixed py_find_empty_at_0)

theorem strfind_empty_needle_witness:
  "(0::int) \<le> 3 \<and> strfind ''abc'' (Str []) None 3 False = 0 \<and>
   strfind [] (Str ([] :: string)) None 0 False = 0"
  using strfind_empty_needle [of 3 "''abc''"] strfind_empty_needle [of 0 "[] :: string"]
  by simp

text \<open>
  C10. With an empty list or tuple of needles the candidates of the first step are
  empty, the reducer answers -1 without calling \<^verbatim>\<open>min\<close> or \<^verbatim>\<open>max\<close>, and the search
  returns -1, whatever the haystack, the occurrence count, the start and the overlap
  setting.
\<close>

theorem strfind_no_needles:
  "strfind h (Seq []) start tms overlap = - 1"
proof (cases "0 \<le> tms")
  case True
  then show ?thesis
    by (simp only: strfind_Str_forward strfind_Seq_forward list.map nonnegative_min_value_Nil for_range_fail)
next
  case False
  then have "tms < 0" by simp
  then show ?thesis
    by (simp only: strfind_Seq_backward list.map nonnegative_max_value_Nil for_range_fail)
qed

end
